theory Spec2Isabelle
  imports Main "HOL-Library.Word" "HOL-Library.AList"
begin

section \<open>Failures of the C++ code as values\<close>

text \<open>
  \<open>StdException\<close> is the \<^verbatim>\<open>throw std::exception()\<close> of the replacer. The other three are
  the undefined behaviours the sources can reach: calling a member through a null pointer,
  indexing an array or vector outside its bounds, and erasing or reading through a list
  iterator that refers to no element of the list (never set, or to an element erased before).
\<close>

datatype error = StdException | NullDereference | OutOfRange | InvalidIterator

definition bind_err :: "error + 'a \<Rightarrow> ('a \<Rightarrow> error + 'b) \<Rightarrow> error + 'b" where
  "bind_err m f = (case m of Inl e \<Rightarrow> Inl e | Inr x \<Rightarrow> f x)"

section \<open>LRU-K replacer (src/buffer/lru\_k\_replacer.cpp)\<close>

text \<open>
  The class declaration is in a header outside the sources; the fields are typed by the way
  the member functions use them. \<open>frame_id_t\<close> is a signed 32-bit integer on which no
  arithmetic is done, so it is an \<open>int\<close>; the \<open>size_t\<close> counters are 64-bit words.
  \<open>use_count\<close> is a hash map read with \<^verbatim>\<open>operator[]\<close>, which yields 0 for an absent key: a
  total function. \<open>is_accessible\<close> is the vector the constructor resizes to
  \<open>num_frames + 1\<close>. \<open>history_map\<close> and \<open>cache_map\<close> send a frame to the iterator of its
  own element in the list; they are kept as their key sets, and the iterator stored for
  \<open>f\<close> is valid exactly while \<open>f\<close> is an element of the list.
\<close>

type_synonym frame_id_t = int
type_synonym page_id_t = int

record LRUKReplacer =
  replacer_size :: nat
  replacer_k :: "64 word"
  curr_size :: "64 word"
  use_count :: "frame_id_t \<Rightarrow> 64 word"
  is_accessible :: "bool list"
  history_list :: "frame_id_t list"
  history_map :: "frame_id_t set"
  cache_list :: "frame_id_t list"
  cache_map :: "frame_id_t set"

definition LRUKReplacer_new :: "nat \<Rightarrow> 64 word \<Rightarrow> LRUKReplacer" where
  "LRUKReplacer_new num_frames k =
     \<lparr> replacer_size = num_frames, replacer_k = k, curr_size = 0,
       use_count = (\<lambda>_. 0), is_accessible = replicate (num_frames + 1) False,
       history_list = [], history_map = {}, cache_list = [], cache_map = {} \<rparr>"

text \<open>\<^verbatim>\<open>static_cast<int>(replacer_size_)\<close>: the low 32 bits, read as two's complement.\<close>

definition static_cast_int :: "nat \<Rightarrow> int" where
  "static_cast_int n = signed_take_bit 31 (int n)"

text \<open>\<^verbatim>\<open>is_accessible_[i]\<close>, with the out-of-bounds read written out.\<close>

definition vec_at :: "bool list \<Rightarrow> int \<Rightarrow> error + bool" where
  "vec_at v i = (if 0 \<le> i \<and> nat i < length v then Inr (v ! nat i) else Inl OutOfRange)"

text \<open>
  \<^verbatim>\<open>list.erase(map[f])\<close>: the stored iterator refers to the element \<open>f\<close>; when the key
  is absent \<^verbatim>\<open>operator[]\<close> yields a singular iterator, and when the element was erased
  before the iterator is stale.
\<close>

definition list_erase :: "frame_id_t list \<Rightarrow> frame_id_t set \<Rightarrow> frame_id_t \<Rightarrow> error + frame_id_t list" where
  "list_erase xs m f = (if f \<in> m \<and> f \<in> set xs then Inr (remove1 f xs) else Inl InvalidIterator)"

definition RecordAccess :: "LRUKReplacer \<Rightarrow> frame_id_t \<Rightarrow> error + LRUKReplacer" where
  "RecordAccess r frame_id =
     (if frame_id > static_cast_int (replacer_size r) then Inl StdException
      else
        let r1 = r\<lparr>use_count := (use_count r)(frame_id := use_count r frame_id + 1)\<rparr> in
        if use_count r1 frame_id = replacer_k r1 then
          bind_err (if frame_id \<in> history_map r1
                    then list_erase (history_list r1) (history_map r1) frame_id
                    else Inr (history_list r1))
            (\<lambda>hl. Inr (r1\<lparr>history_list := hl, history_map := history_map r1 - {frame_id},
                           cache_list := frame_id # cache_list r1,
                           cache_map := insert frame_id (cache_map r1)\<rparr>))
        else if use_count r1 frame_id > replacer_k r1 then
          (if frame_id \<in> cache_map r1
           then bind_err (list_erase (cache_list r1) (cache_map r1) frame_id)
                  (\<lambda>cl. Inr (r1\<lparr>cache_list := cl\<rparr>))
           else Inr r1)
        else
          (if frame_id \<notin> history_map r1
           then Inr (r1\<lparr>history_list := frame_id # history_list r1,
                         history_map := insert frame_id (history_map r1)\<rparr>)
           else Inr r1))"

definition SetEvictable :: "LRUKReplacer \<Rightarrow> frame_id_t \<Rightarrow> bool \<Rightarrow> error + LRUKReplacer" where
  "SetEvictable r frame_id set_evictable =
     (if frame_id > static_cast_int (replacer_size r) then Inl StdException
      else if use_count r frame_id = 0 then Inr r
      else
        bind_err (vec_at (is_accessible r) frame_id) (\<lambda>a.
          let c1 = (if \<not> a \<and> set_evictable then curr_size r + 1 else curr_size r);
              c2 = (if a \<and> \<not> set_evictable then c1 - 1 else c1)
          in Inr (r\<lparr>curr_size := c2,
                     is_accessible := (is_accessible r)[nat frame_id := set_evictable]\<rparr>)))"

definition Remove :: "LRUKReplacer \<Rightarrow> frame_id_t \<Rightarrow> error + LRUKReplacer" where
  "Remove r frame_id =
     (if frame_id > static_cast_int (replacer_size r) then Inl StdException
      else
        bind_err (vec_at (is_accessible r) frame_id) (\<lambda>a.
          if \<not> a then Inr r
          else
            bind_err
              (if use_count r frame_id < replacer_k r
               then bind_err (list_erase (history_list r) (history_map r) frame_id)
                      (\<lambda>hl. Inr (r\<lparr>history_list := hl, history_map := history_map r - {frame_id}\<rparr>))
               else bind_err (list_erase (cache_list r) (cache_map r) frame_id)
                      (\<lambda>cl. Inr (r\<lparr>cache_list := cl, cache_map := cache_map r - {frame_id}\<rparr>)))
              (\<lambda>r1. Inr (r1\<lparr>use_count := (use_count r1)(frame_id := 0),
                             is_accessible := (is_accessible r1)[nat frame_id := False],
                             curr_size := curr_size r1 - 1\<rparr>))))"

text \<open>
  The two \<^verbatim>\<open>while (it != list.begin()) { it--; ... }\<close> loops of \<open>Evict\<close> walk a list
  from its last element to its first and stop at the first frame whose flag is set:
  \<open>scan_back\<close> takes the list reversed.
\<close>

fun scan_back :: "bool list \<Rightarrow> frame_id_t list \<Rightarrow> error + frame_id_t option" where
  "scan_back acc [] = Inr None"
| "scan_back acc (f # fs) =
     bind_err (vec_at acc f) (\<lambda>a. if \<not> a then scan_back acc fs else Inr (Some f))"

text \<open>
  \<open>Evict\<close> returns the boolean, the value left in the out-parameter \<^verbatim>\<open>*frame_id\<close> (set to
  0 on entry) and the new state. The element erased is the one the backward scan stands
  on: the last occurrence of the frame in the list.

  The history loop reads \<^verbatim>\<open>*it\<close> for the last time before \<^verbatim>\<open>history_list_.erase(it)\<close>.
  The cache loop ends with \<^verbatim>\<open>cache_list_.erase(it); cache_map_.erase(*it);\<close>: it reads the
  element through \<^verbatim>\<open>it\<close> after erasing it, so every eviction from the cache ring is an
  access through an invalid iterator.
\<close>

definition evict_from_history :: "LRUKReplacer \<Rightarrow> frame_id_t \<Rightarrow> LRUKReplacer" where
  "evict_from_history r f =
     r\<lparr>history_map := history_map r - {f},
       use_count := (use_count r)(f := 0),
       is_accessible := (is_accessible r)[nat f := False],
       curr_size := curr_size r - 1,
       history_list := rev (remove1 f (rev (history_list r)))\<rparr>"

definition Evict :: "LRUKReplacer \<Rightarrow> error + (bool \<times> frame_id_t \<times> LRUKReplacer)" where
  "Evict r =
     (if history_map r = {} \<and> cache_map r = {} then Inr (False, 0, r)
      else
        bind_err (scan_back (is_accessible r) (rev (history_list r))) (\<lambda>h.
          case h of
            Some f \<Rightarrow> Inr (True, f, evict_from_history r f)
          | None \<Rightarrow>
              bind_err (scan_back (is_accessible r) (rev (cache_list r))) (\<lambda>c.
                case c of
                  Some f \<Rightarrow> Inl InvalidIterator
                | None \<Rightarrow> Inr (False, 0, r))))"

definition Size :: "LRUKReplacer \<Rightarrow> 64 word" where
  "Size r = curr_size r"

section \<open>Buffer pool manager (src/buffer/buffer\_pool\_manager.cpp)\<close>

text \<open>
  A frame's metadata is the \<open>Page\<close> record; the page bytes play no part in the properties
  below and are left out, so \<^verbatim>\<open>ResetMemory\<close> changes nothing here. The disk manager and
  the page latches are outside the sources: every call to them is appended to \<open>io_log\<close>.
  \<open>INVALID_PAGE_ID\<close> is declared in a header outside the sources, where it is \<open>-1\<close>. The
  page-id counter is kept unbounded. A \<^verbatim>\<open>Page *\<close> is the index of its frame, \<open>None\<close> for
  \<^verbatim>\<open>nullptr\<close>.
\<close>

definition INVALID_PAGE_ID :: page_id_t where
  "INVALID_PAGE_ID = - 1"

record Page =
  page_id :: page_id_t
  pin_count :: int
  is_dirty :: bool

datatype io_event =
    WritePage page_id_t
  | ReadPage page_id_t
  | DeallocatePage page_id_t
  | RLatch frame_id_t
  | WLatch frame_id_t

record BufferPoolManager =
  pool_size :: nat
  pages :: "Page list"
  page_table :: "page_id_t \<rightharpoonup> frame_id_t"
  free_list :: "frame_id_t list"
  replacer :: LRUKReplacer
  next_page_id :: page_id_t
  io_log :: "io_event list"

definition BufferPoolManager_new :: "nat \<Rightarrow> 64 word \<Rightarrow> BufferPoolManager" where
  "BufferPoolManager_new n k =
     \<lparr> pool_size = n,
       pages = replicate n \<lparr>page_id = INVALID_PAGE_ID, pin_count = 0, is_dirty = False\<rparr>,
       page_table = Map.empty,
       free_list = map static_cast_int [0..<n],
       replacer = LRUKReplacer_new n k,
       next_page_id = 0,
       io_log = [] \<rparr>"

text \<open>\<^verbatim>\<open>pages_[frame_id]\<close>, with the out-of-bounds access written out.\<close>

definition page_at :: "Page list \<Rightarrow> frame_id_t \<Rightarrow> error + Page" where
  "page_at ps i = (if 0 \<le> i \<and> nat i < length ps then Inr (ps ! nat i) else Inl OutOfRange)"

text \<open>
  \<open>NewPage\<close> and \<open>FetchPage\<close> obtain a frame with the same lines: the back of the free
  list when there is one, else the replacer's victim, written back when dirty and dropped
  from the page table. \<open>None\<close> is the path that returns \<^verbatim>\<open>nullptr\<close>.
\<close>

definition obtain_frame :: "BufferPoolManager \<Rightarrow> error + (frame_id_t option \<times> BufferPoolManager)" where
  "obtain_frame s =
     (if free_list s \<noteq> [] then
        Inr (Some (last (free_list s)), s\<lparr>free_list := butlast (free_list s)\<rparr>)
      else
        bind_err (Evict (replacer s)) (\<lambda>(ok, f, r').
          let s1 = s\<lparr>replacer := r'\<rparr> in
          if \<not> ok then Inr (None, s1)
          else
            bind_err (page_at (pages s1) f) (\<lambda>p.
              let s2 = (if is_dirty p
                        then s1\<lparr>io_log := io_log s1 @ [WritePage (page_id p)],
                                pages := (pages s1)[nat f := p\<lparr>is_dirty := False\<rparr>]\<rparr>
                        else s1)
              in Inr (Some f, s2\<lparr>page_table := (page_table s2)(page_id p := None)\<rparr>))))"

text \<open>\<open>NewPage\<close> returns the new page id with the frame, or \<open>None\<close> for \<^verbatim>\<open>nullptr\<close>.\<close>

definition NewPage :: "BufferPoolManager \<Rightarrow> error + ((page_id_t \<times> frame_id_t) option \<times> BufferPoolManager)" where
  "NewPage s =
     (let new_page_id = next_page_id s;
          s0 = s\<lparr>next_page_id := next_page_id s + 1\<rparr>
      in bind_err (obtain_frame s0) (\<lambda>(fo, s1).
           case fo of
             None \<Rightarrow> Inr (None, s1)
           | Some f \<Rightarrow>
               let s2 = s1\<lparr>page_table := (page_table s1)(new_page_id \<mapsto> f)\<rparr> in
               bind_err (page_at (pages s2) f) (\<lambda>_.
                 let s3 = s2\<lparr>pages := (pages s2)[nat f :=
                             \<lparr>page_id = new_page_id, pin_count = 1, is_dirty = False\<rparr>]\<rparr>
                 in bind_err (RecordAccess (replacer s3) f) (\<lambda>r1.
                      bind_err (SetEvictable r1 f False) (\<lambda>r2.
                        Inr (Some (new_page_id, f), s3\<lparr>replacer := r2\<rparr>))))))"

definition FetchPage :: "BufferPoolManager \<Rightarrow> page_id_t \<Rightarrow> error + (frame_id_t option \<times> BufferPoolManager)" where
  "FetchPage s pid =
     (case page_table s pid of
        Some f \<Rightarrow>
          bind_err (page_at (pages s) f) (\<lambda>p.
            let s1 = s\<lparr>pages := (pages s)[nat f := p\<lparr>pin_count := pin_count p + 1\<rparr>]\<rparr> in
            bind_err (RecordAccess (replacer s1) f) (\<lambda>r1.
              bind_err (SetEvictable r1 f False) (\<lambda>r2.
                Inr (Some f, s1\<lparr>replacer := r2\<rparr>))))
      | None \<Rightarrow>
          bind_err (obtain_frame s) (\<lambda>(fo, s1).
            case fo of
              None \<Rightarrow> Inr (None, s1)
            | Some f \<Rightarrow>
                let s2 = s1\<lparr>page_table := (page_table s1)(pid \<mapsto> f)\<rparr> in
                bind_err (page_at (pages s2) f) (\<lambda>_.
                  let s3 = s2\<lparr>pages := (pages s2)[nat f :=
                              \<lparr>page_id = pid, pin_count = 1, is_dirty = False\<rparr>],
                              io_log := io_log s2 @ [ReadPage pid]\<rparr>
                  in bind_err (RecordAccess (replacer s3) f) (\<lambda>r1.
                       bind_err (SetEvictable r1 f False) (\<lambda>r2.
                         Inr (Some f, s3\<lparr>replacer := r2\<rparr>))))))"

definition UnpinPage :: "BufferPoolManager \<Rightarrow> page_id_t \<Rightarrow> bool \<Rightarrow> error + (bool \<times> BufferPoolManager)" where
  "UnpinPage s pid dirty =
     (if pid = INVALID_PAGE_ID then Inr (False, s)
      else
        case page_table s pid of
          None \<Rightarrow> Inr (False, s)
        | Some f \<Rightarrow>
            bind_err (page_at (pages s) f) (\<lambda>p.
              let p1 = p\<lparr>is_dirty := dirty\<rparr>;
                  s1 = s\<lparr>pages := (pages s)[nat f := p1]\<rparr>
              in if pin_count p1 > 0 then
                   let p2 = p1\<lparr>pin_count := pin_count p1 - 1\<rparr>;
                       s2 = s1\<lparr>pages := (pages s1)[nat f := p2]\<rparr>
                   in if pin_count p2 = 0
                      then bind_err (SetEvictable (replacer s2) f True) (\<lambda>r.
                             Inr (True, s2\<lparr>replacer := r\<rparr>))
                      else Inr (True, s2)
                 else Inr (False, s1)))"

definition DeletePage :: "BufferPoolManager \<Rightarrow> page_id_t \<Rightarrow> error + (bool \<times> BufferPoolManager)" where
  "DeletePage s pid =
     (case page_table s pid of
        None \<Rightarrow> Inr (True, s)
      | Some f \<Rightarrow>
          bind_err (page_at (pages s) f) (\<lambda>p.
            if pin_count p \<noteq> 0 then Inr (False, s)
            else
              let s1 = (if is_dirty p
                        then s\<lparr>io_log := io_log s @ [WritePage (page_id p)]\<rparr> else s);
                  s2 = s1\<lparr>pages := (pages s1)[nat f :=
                             \<lparr>page_id = INVALID_PAGE_ID, pin_count = 0, is_dirty = False\<rparr>]\<rparr>;
                  s3 = s2\<lparr>page_table := (page_table s2)(pid := None)\<rparr>
              in bind_err (Remove (replacer s3) f) (\<lambda>r.
                   Inr (False, s3\<lparr>replacer := r,
                                  free_list := free_list s3 @ [pid],
                                  io_log := io_log s3 @ [DeallocatePage pid]\<rparr>))))"

text \<open>
  The guards are declared outside the sources; a guard is kept as the page pointer it was
  built from. \<open>FetchPageBasic\<close> passes the pointer on as it is; \<open>FetchPageRead\<close> and
  \<open>FetchPageWrite\<close> call \<^verbatim>\<open>RLatch\<close>/\<^verbatim>\<open>WLatch\<close> through it first.
\<close>

datatype page_guard =
    BasicPageGuard "frame_id_t option"
  | ReadPageGuard "frame_id_t option"
  | WritePageGuard "frame_id_t option"

definition FetchPageBasic :: "BufferPoolManager \<Rightarrow> page_id_t \<Rightarrow> error + (page_guard \<times> BufferPoolManager)" where
  "FetchPageBasic s pid =
     bind_err (FetchPage s pid) (\<lambda>(page, s1). Inr (BasicPageGuard page, s1))"

definition FetchPageRead :: "BufferPoolManager \<Rightarrow> page_id_t \<Rightarrow> error + (page_guard \<times> BufferPoolManager)" where
  "FetchPageRead s pid =
     bind_err (FetchPage s pid) (\<lambda>(page, s1).
       case page of
         None \<Rightarrow> Inl NullDereference
       | Some f \<Rightarrow> Inr (ReadPageGuard page, s1\<lparr>io_log := io_log s1 @ [RLatch f]\<rparr>))"

definition FetchPageWrite :: "BufferPoolManager \<Rightarrow> page_id_t \<Rightarrow> error + (page_guard \<times> BufferPoolManager)" where
  "FetchPageWrite s pid =
     bind_err (FetchPage s pid) (\<lambda>(page, s1).
       case page of
         None \<Rightarrow> Inl NullDereference
       | Some f \<Rightarrow> Inr (WritePageGuard page, s1\<lparr>io_log := io_log s1 @ [WLatch f]\<rparr>))"

section \<open>Persistent trie (src/primer/trie.cpp)\<close>

text \<open>
  The nodes are shared between tries through \<^verbatim>\<open>shared_ptr\<close>, and \<open>Put\<close> writes into
  the children of nodes it holds: the nodes live in an explicit store. A pointer is an
  address, \<open>None\<close> for \<^verbatim>\<open>nullptr\<close>; \<open>top\<close> is the next address \<^verbatim>\<open>make_shared\<close> hands
  out. A node has its \<^verbatim>\<open>children_\<close> (a \<^verbatim>\<open>std::map\<close>, kept as an association list) and,
  when it is a \<^verbatim>\<open>TrieNodeWithValue<T>\<close>, the value with the type \<open>T\<close> it was stored at,
  which is what \<^verbatim>\<open>dynamic_cast\<close> tests; \<^verbatim>\<open>is_value_node_\<close> holds exactly for these nodes.
  The node classes are declared in a header outside the sources; \<open>Clone\<close> copies a node
  with its value, as the virtual \<^verbatim>\<open>Clone\<close> of the two classes does.
\<close>

type_synonym addr = nat

record ('t, 'v) TrieNode =
  children :: "(char \<times> addr) list"
  node_value :: "('t \<times> 'v) option"

record ('t, 'v) store =
  cells :: "addr \<Rightarrow> ('t, 'v) TrieNode"
  top :: addr

type_synonym Trie = "addr option"

definition is_value_node :: "('t, 'v) TrieNode \<Rightarrow> bool" where
  "is_value_node n = (node_value n \<noteq> None)"

definition empty_store :: "('t, 'v) store" where
  "empty_store = \<lparr>cells = (\<lambda>_. \<lparr>children = [], node_value = None\<rparr>), top = 0\<rparr>"

definition make_shared :: "('t, 'v) store \<Rightarrow> ('t, 'v) TrieNode \<Rightarrow> ('t, 'v) store \<times> addr" where
  "make_shared h n = (h\<lparr>cells := (cells h)(top h := n), top := Suc (top h)\<rparr>, top h)"

definition Clone :: "('t, 'v) store \<Rightarrow> addr \<Rightarrow> ('t, 'v) store \<times> addr" where
  "Clone h a = make_shared h (cells h a)"

text \<open>\<^verbatim>\<open>p->children_[c] = q\<close> and \<^verbatim>\<open>p->children_.erase(c)\<close>.\<close>

definition set_child :: "('t, 'v) store \<Rightarrow> addr \<Rightarrow> char \<Rightarrow> addr \<Rightarrow> ('t, 'v) store" where
  "set_child h p c q =
     h\<lparr>cells := (cells h)(p := (cells h p)\<lparr>children := AList.update c q (children (cells h p))\<rparr>)\<rparr>"

definition erase_child :: "('t, 'v) store \<Rightarrow> addr \<Rightarrow> char \<Rightarrow> ('t, 'v) store" where
  "erase_child h p c =
     h\<lparr>cells := (cells h)(p := (cells h p)\<lparr>children := AList.delete c (children (cells h p))\<rparr>)\<rparr>"

text \<open>The \<^verbatim>\<open>for (auto ch : key)\<close> loop of \<open>Get\<close>: \<open>None\<close> when a child is missing.\<close>

fun walk :: "('t, 'v) store \<Rightarrow> addr \<Rightarrow> string \<Rightarrow> addr option" where
  "walk h cur [] = Some cur"
| "walk h cur (ch # key) =
     (case map_of (children (cells h cur)) ch of
        None \<Rightarrow> None
      | Some temp \<Rightarrow> walk h temp key)"

text \<open>\<open>Get<T>\<close>: \<open>ty\<close> is the type \<open>T\<close> of the instantiation.\<close>

definition Get :: "('t, 'v) store \<Rightarrow> Trie \<Rightarrow> 't \<Rightarrow> string \<Rightarrow> 'v option" where
  "Get h root ty key =
     (case root of
        None \<Rightarrow> None
      | Some r \<Rightarrow>
          (case walk h r key of
             None \<Rightarrow> None
           | Some cur \<Rightarrow>
               if \<not> is_value_node (cells h cur) then None
               else (case node_value (cells h cur) of
                       None \<Rightarrow> None
                     | Some (ty', v) \<Rightarrow> if ty' = ty then Some v else None)))"

text \<open>
  The loop of \<open>Put\<close> over \<open>key[0 .. size - 2]\<close> followed by the code for the last
  character, started at the node \<open>ptr\<close> on a non-empty key. Every node written to is one
  the call has just made.
\<close>

fun put_path :: "('t, 'v) store \<Rightarrow> addr \<Rightarrow> string \<Rightarrow> 't \<times> 'v \<Rightarrow> ('t, 'v) store" where
  "put_path h ptr [] tv = h"
| "put_path h ptr [c] tv =
     (let (h1, valueNode) =
            (case map_of (children (cells h ptr)) c of
               None \<Rightarrow> make_shared h \<lparr>children = [], node_value = Some tv\<rparr>
             | Some ch \<Rightarrow> make_shared h \<lparr>children = children (cells h ch), node_value = Some tv\<rparr>)
      in set_child h1 ptr c valueNode)"
| "put_path h ptr (c # key) tv =
     (case map_of (children (cells h ptr)) c of
        None \<Rightarrow>
          let (h1, newNode) = make_shared h \<lparr>children = [], node_value = None\<rparr>;
              h2 = set_child h1 ptr c newNode
          in put_path h2 newNode key tv
      | Some ch \<Rightarrow>
          let (h1, child) = Clone h ch;
              h2 = set_child h1 ptr c child
          in put_path h2 child key tv)"

text \<open>The body of \<open>Put\<close> below the null test, on the root \<open>r\<close>.\<close>

definition Put_from :: "('t, 'v) store \<Rightarrow> addr \<Rightarrow> string \<Rightarrow> 't \<times> 'v \<Rightarrow> ('t, 'v) store \<times> Trie" where
  "Put_from h r key tv =
     (let (h1, ptr) = Clone h r in
      if key = [] then
        let (h2, p) = make_shared h1 \<lparr>children = children (cells h1 ptr), node_value = Some tv\<rparr>
        in (h2, Some p)
      else (put_path h1 ptr key tv, Some ptr))"

text \<open>
  \<open>Put<T>(key, value)\<close>, the value paired with its type. On a trie without a root it makes
  an empty root and calls itself on \<^verbatim>\<open>Trie(root)\<close>.
\<close>

definition Put :: "('t, 'v) store \<Rightarrow> Trie \<Rightarrow> string \<Rightarrow> 't \<times> 'v \<Rightarrow> ('t, 'v) store \<times> Trie" where
  "Put h root key tv =
     (case root of
        None \<Rightarrow>
          let (h1, r) = make_shared h \<lparr>children = [], node_value = None\<rparr>
          in Put_from h1 r key tv
      | Some r \<Rightarrow> Put_from h r key tv)"

text \<open>
  \<open>Dfs(root, key, index)\<close>, the key given as its part from \<open>index\<close> on. Its first action
  in either branch reads \<^verbatim>\<open>root->children_\<close>.
\<close>

fun Dfs :: "('t, 'v) store \<Rightarrow> addr option \<Rightarrow> string \<Rightarrow> error + (('t, 'v) store \<times> addr option)" where
  "Dfs h None key = Inl NullDereference"
| "Dfs h (Some root) [] =
     (if children (cells h root) = [] then Inr (h, None)
      else
        let (h1, n) = make_shared h \<lparr>children = children (cells h root), node_value = None\<rparr>
        in Inr (h1, Some n))"
| "Dfs h (Some root) (c # key) =
     (case map_of (children (cells h root)) c of
        Some ch \<Rightarrow>
          bind_err (Dfs h (Some ch) key) (\<lambda>(h1, new_node).
            let (h2, node) = Clone h1 root in
            case new_node of
              Some nn \<Rightarrow> Inr (set_child h2 node c nn, Some node)
            | None \<Rightarrow>
                let h3 = erase_child h2 node c in
                if \<not> is_value_node (cells h3 node) \<and> children (cells h3 node) = []
                then Inr (h3, None)
                else Inr (h3, Some node))
      | None \<Rightarrow> Inr (h, Some root))"

definition Remove_trie :: "('t, 'v) store \<Rightarrow> Trie \<Rightarrow> string \<Rightarrow> error + (('t, 'v) store \<times> Trie)" where
  "Remove_trie h root key = bind_err (Dfs h root key) (\<lambda>(h1, r). Inr (h1, r))"

section \<open>Predicates and states of the statements\<close>

text \<open>A frame is evictable when its flag can be read and is set.\<close>

definition evictable :: "LRUKReplacer \<Rightarrow> frame_id_t \<Rightarrow> bool" where
  "evictable r f = (vec_at (is_accessible r) f = Inr True)"

text \<open>
  The frames of the two rings index the flag vector, and each ring's frames are keys of
  its map.
\<close>

definition rings_ok :: "LRUKReplacer \<Rightarrow> bool" where
  "rings_ok r =
     ((\<forall>f \<in> set (history_list r) \<union> set (cache_list r). 0 \<le> f \<and> nat f < length (is_accessible r))
      \<and> set (history_list r) \<subseteq> history_map r
      \<and> set (cache_list r) \<subseteq> cache_map r)"

text \<open>
  What the replacer's operations keep of the rings: besides \<open>rings_ok\<close>, no frame is
  twice in a ring or in both, and a frame of the cache ring has exactly K accesses.
\<close>

definition replacer_inv :: "LRUKReplacer \<Rightarrow> bool" where
  "replacer_inv r =
     (rings_ok r \<and> distinct (history_list r) \<and> distinct (cache_list r)
      \<and> set (history_list r) \<inter> set (cache_list r) = {}
      \<and> (\<forall>f \<in> set (cache_list r). use_count r f = replacer_k r))"

text \<open>
  The replacer of scenario S3 (three frames, K = 2) after the accesses 0, 1, 2, 0 and after
  all three frames were marked evictable.
\<close>

definition s3_state :: LRUKReplacer where
  "s3_state =
     \<lparr> replacer_size = 3, replacer_k = 2, curr_size = 3,
       use_count = (\<lambda>_. 0)(0 := 2, 1 := 1, 2 := 1),
       is_accessible = [True, True, True, False],
       history_list = [2, 1], history_map = {1, 2}, cache_list = [0], cache_map = {0} \<rparr>"

text \<open>A pool of one frame after \<open>NewPage\<close>: page 0 is resident and pinned once.\<close>

definition all_pinned :: BufferPoolManager where
  "all_pinned =
     \<lparr> pool_size = 1, pages = [\<lparr>page_id = 0, pin_count = 1, is_dirty = False\<rparr>],
       page_table = [0 \<mapsto> 0], free_list = [],
       replacer = (LRUKReplacer_new 1 2)\<lparr>use_count := (\<lambda>_. 0)(0 := 1), history_list := [0],
                    history_map := {0}\<rparr>,
       next_page_id = 1, io_log = [] \<rparr>"

text \<open>The same pool after page 0 was unpinned with a clean hint.\<close>

definition unpinned_clean :: BufferPoolManager where
  "unpinned_clean =
     \<lparr> pool_size = 1, pages = [\<lparr>page_id = 0, pin_count = 0, is_dirty = False\<rparr>],
       page_table = [0 \<mapsto> 0], free_list = [],
       replacer = (LRUKReplacer_new 1 2)\<lparr>use_count := (\<lambda>_. 0)(0 := 1), history_list := [0],
                    history_map := {0}, is_accessible := [True, False], curr_size := 1\<rparr>,
       next_page_id = 1, io_log = [] \<rparr>"

text \<open>
  A store is closed when the children of every node made so far are nodes made so far, as
  they are when every pointer is a \<^verbatim>\<open>shared_ptr\<close>; a trie is in a store when its root is
  null or a node made so far.
\<close>

definition store_closed :: "('t, 'v) store \<Rightarrow> bool" where
  "store_closed h =
     (\<forall>a < top h. \<forall>c b. map_of (children (cells h a)) c = Some b \<longrightarrow> b < top h)"

definition trie_in :: "('t, 'v) store \<Rightarrow> Trie \<Rightarrow> bool" where
  "trie_in h t = (case t of None \<Rightarrow> True | Some r \<Rightarrow> r < top h)"

text \<open>The trie with the one key \<open>ab\<close>, made from the empty trie, with its store.\<close>

definition store_a :: "(nat, nat) store \<times> Trie" where
  "store_a = Put empty_store None ''ab'' (0, 1)"

section \<open>Properties of the replacer\<close>

lemmas replacer_defs = RecordAccess_def SetEvictable_def Remove_def Evict_def LRUKReplacer_new_def
  bind_err_def static_cast_int_def list_erase_def vec_at_def evict_from_history_def

lemma bind_err_Inr_iff: "bind_err m f = Inr y \<longleftrightarrow> (\<exists>x. m = Inr x \<and> f x = Inr y)"
  by (cases m) (simp_all add: bind_err_def)

lemma replicate_4: "replicate 4 x = [x, x, x, x]"
  by (simp add: eval_nat_numeral)

lemma static_cast_int_small: "n < 2 ^ 31 \<Longrightarrow> static_cast_int n = int n"
  unfolding static_cast_int_def by (simp add: signed_take_bit_int_eq_self)

text \<open>
  C1. The claim asks that an access to a frame already at K accesses keeps the frame in
  the cache ring, at its front. On a replacer of three frames with K = 2, frame 1 enters
  the cache ring at its second access; the third access erases it from the ring and does
  not put it back, although its count is 3 and its map entry remains. Marked evictable,
  it is then not found by \<open>Evict\<close>, which reports no victim.
\<close>

theorem RecordAccess_beyond_k_loses_frame:
  "bind_err (RecordAccess (LRUKReplacer_new 3 2) 1) (\<lambda>r1.
     bind_err (RecordAccess r1 1) (\<lambda>r2.
       bind_err (RecordAccess r2 1) (\<lambda>r3.
         bind_err (SetEvictable r3 1 True) (\<lambda>r4.
           bind_err (Evict r4) (\<lambda>(ok, f, r5).
             Inr (use_count r2 1, cache_list r2, use_count r3 1, cache_list r3, history_list r3,
                  1 \<in> cache_map r3, is_accessible r4, ok))))))
   = Inr (2, [1], 3, [], [], True, [False, True, False, False], False)"
  by (simp add: replacer_defs Let_def replicate_4)

text \<open>
  The same in general: whenever the branch for a count above K runs on a frame that is in
  the cache ring once, the frame is not in the cache ring afterwards, and the history ring
  is as before.
\<close>

lemma RecordAccess_beyond_k_general:
  assumes "frame_id \<le> static_cast_int (replacer_size r)"
    and "replacer_k r < use_count r frame_id + 1"
    and "frame_id \<in> cache_map r" and "frame_id \<in> set (cache_list r)"
    and "distinct (cache_list r)"
  shows "\<exists>r'. RecordAccess r frame_id = Inr r' \<and> frame_id \<notin> set (cache_list r')
           \<and> history_list r' = history_list r"
  using assms by (auto simp: RecordAccess_def Let_def bind_err_def list_erase_def)

text \<open>
  The map entry left behind is stale: the fourth access erases through it once more.
\<close>

lemma RecordAccess_stale_iterator:
  "bind_err (RecordAccess (LRUKReplacer_new 3 2) 1) (\<lambda>r1.
     bind_err (RecordAccess r1 1) (\<lambda>r2.
       bind_err (RecordAccess r2 1) (\<lambda>r3. RecordAccess r3 1)))
   = Inl InvalidIterator"
  by (simp add: replacer_defs Let_def)

subsection \<open>The victim of Evict\<close>

lemma scan_back_find:
  "\<forall>f \<in> set fs. 0 \<le> f \<and> nat f < length acc \<Longrightarrow>
     scan_back acc fs = Inr (find (\<lambda>f. vec_at acc f = Inr True) fs)"
  by (induction fs) (auto simp: bind_err_def vec_at_def)

lemma find_first_split:
  "find P ys = Some f \<Longrightarrow> \<exists>pre post. ys = pre @ f # post \<and> P f \<and> (\<forall>g \<in> set pre. \<not> P g)"
proof (induction ys)
  case Nil
  then show ?case by simp
next
  case (Cons y ys)
  show ?case
  proof (cases "P y")
    case True
    with Cons.prems have "y = f" by simp
    with True have "y # ys = [] @ f # ys \<and> P f \<and> (\<forall>g \<in> set []. \<not> P g)" by simp
    then show ?thesis by blast
  next
    case False
    with Cons.prems have "find P ys = Some f" by simp
    from Cons.IH [OF this] obtain pre post
      where "ys = pre @ f # post" "P f" "\<forall>g \<in> set pre. \<not> P g" by blast
    with False have "y # ys = (y # pre) @ f # post \<and> P f \<and> (\<forall>g \<in> set (y # pre). \<not> P g)"
      by simp
    then show ?thesis by blast
  qed
qed

lemma find_last_split:
  assumes "find P (rev xs) = Some f"
  shows "\<exists>pre post. xs = pre @ f # post \<and> P f \<and> (\<forall>g \<in> set post. \<not> P g)"
proof -
  from find_first_split [OF assms] obtain a b
    where ab: "rev xs = a @ f # b" "P f" "\<forall>g \<in> set a. \<not> P g" by blast
  from ab(1) have "xs = rev b @ f # rev a"
    by (metis rev_append rev.simps(2) rev_rev_ident append_Cons append_Nil append_assoc)
  with ab(2,3) have "xs = rev b @ f # rev a \<and> P f \<and> (\<forall>g \<in> set (rev a). \<not> P g)" by simp
  then show ?thesis by blast
qed

text \<open>
  The history half of the victim choice. When the history ring has an evictable frame,
  \<open>Evict\<close> succeeds and the victim is the evictable frame of the history ring nearest to
  its tail: no frame behind it in the list is evictable.
\<close>

lemma Evict_history_victim:
  assumes ok: "rings_ok r"
    and some: "\<exists>g \<in> set (history_list r). evictable r g"
  shows "\<exists>f. Evict r = Inr (True, f, evict_from_history r f) \<and> evictable r f \<and>
           (\<exists>pre post. history_list r = pre @ f # post \<and> (\<forall>g \<in> set post. \<not> evictable r g))"
proof -
  let ?P = "\<lambda>f. vec_at (is_accessible r) f = Inr True"
  have P: "?P = evictable r" by (simp add: evictable_def fun_eq_iff)
  from ok some have maps: "\<not> (history_map r = {} \<and> cache_map r = {})"
    by (auto simp: rings_ok_def)
  from ok have hs: "scan_back (is_accessible r) (rev (history_list r))
                      = Inr (find (evictable r) (rev (history_list r)))"
    using scan_back_find [of "rev (history_list r)" "is_accessible r"]
    by (simp add: rings_ok_def P)
  from some obtain f where f: "find (evictable r) (rev (history_list r)) = Some f"
    by (cases "find (evictable r) (rev (history_list r))") (auto simp: find_None_iff)
  from find_last_split [OF f] obtain pre post
    where sp: "history_list r = pre @ f # post" "evictable r f"
      "\<forall>g \<in> set post. \<not> evictable r g"
    by blast
  have "Evict r = Inr (True, f, evict_from_history r f)"
    using maps hs f by (simp add: Evict_def bind_err_def)
  with sp show ?thesis by auto
qed

text \<open>
  The cache half. When no frame of the history ring is evictable and one of the cache
  ring is, \<open>Evict\<close> finds it and then reads through the iterator it has just erased.
\<close>

lemma Evict_cache_victim_undefined:
  assumes ok: "rings_ok r"
    and none: "\<forall>g \<in> set (history_list r). \<not> evictable r g"
    and some: "\<exists>g \<in> set (cache_list r). evictable r g"
  shows "Evict r = Inl InvalidIterator"
proof -
  let ?P = "\<lambda>f. vec_at (is_accessible r) f = Inr True"
  have P: "?P = evictable r" by (simp add: evictable_def fun_eq_iff)
  from ok some have maps: "\<not> (history_map r = {} \<and> cache_map r = {})"
    by (auto simp: rings_ok_def)
  from ok have hs: "scan_back (is_accessible r) (rev (history_list r))
                      = Inr (find (evictable r) (rev (history_list r)))"
    using scan_back_find [of "rev (history_list r)" "is_accessible r"]
    by (simp add: rings_ok_def P)
  from ok have cs: "scan_back (is_accessible r) (rev (cache_list r))
                      = Inr (find (evictable r) (rev (cache_list r)))"
    using scan_back_find [of "rev (cache_list r)" "is_accessible r"]
    by (simp add: rings_ok_def P)
  from none have h: "find (evictable r) (rev (history_list r)) = None"
    by (simp add: find_None_iff)
  from some obtain f where f: "find (evictable r) (rev (cache_list r)) = Some f"
    by (cases "find (evictable r) (rev (cache_list r))") (auto simp: find_None_iff)
  show ?thesis
    using maps hs cs h f by (simp add: Evict_def bind_err_def)
qed

text \<open>
  C2. The claim asks that \<open>Evict\<close>, when no frame of the history ring is evictable,
  returns the evictable frame of the cache ring nearest to its tail. On a replacer of
  three frames with K = 2, frame 0 is accessed twice and marked evictable: it is the one
  frame of the cache ring, the history ring is empty, and \<open>Size\<close> is 1. \<open>Evict\<close> finds the
  frame in the cache ring and ends in the read through the erased iterator; it returns no
  victim.
\<close>

theorem Evict_cache_victim_use_after_erase:
  "bind_err (RecordAccess (LRUKReplacer_new 3 2) 0) (\<lambda>r1.
     bind_err (RecordAccess r1 0) (\<lambda>r2.
       bind_err (SetEvictable r2 0 True) (\<lambda>r3.
         Inr (history_list r3, cache_list r3, is_accessible r3, Size r3))))
   = Inr ([], [0], [True, False, False, False], 1)
   \<and> bind_err (RecordAccess (LRUKReplacer_new 3 2) 0) (\<lambda>r1.
       bind_err (RecordAccess r1 0) (\<lambda>r2.
         bind_err (SetEvictable r2 0 True) (\<lambda>r3. Evict r3)))
     = Inl InvalidIterator"
  by (simp add: replacer_defs Let_def Size_def replicate_4)

text \<open>
  Scenario S3, run: the victims are frame 1, then frame 2, both from the history ring;
  the third eviction, of frame 0 from the cache ring, ends in the same invalid read.
\<close>

lemma s3_state_reached:
  "bind_err (RecordAccess (LRUKReplacer_new 3 2) 0) (\<lambda>r1.
     bind_err (RecordAccess r1 1) (\<lambda>r2.
       bind_err (RecordAccess r2 2) (\<lambda>r3.
         bind_err (RecordAccess r3 0) (\<lambda>r4.
           bind_err (SetEvictable r4 0 True) (\<lambda>r5.
             bind_err (SetEvictable r5 1 True) (\<lambda>r6.
               SetEvictable r6 2 True)))))) = Inr s3_state"
  by (simp add: replacer_defs Let_def s3_state_def fun_upd_twist insert_commute
      insert_Diff_if replicate_4)

lemma s3_evictions:
  "bind_err (Evict s3_state) (\<lambda>(ok1, f1, r1).
     bind_err (Evict r1) (\<lambda>(ok2, f2, r2).
       Inr ([(ok1, f1), (ok2, f2)], history_list r2, cache_list r2, Size r2)))
   = Inr ([(True, 1), (True, 2)], [], [0], 1)
   \<and> bind_err (Evict s3_state) (\<lambda>(ok1, f1, r1).
       bind_err (Evict r1) (\<lambda>(ok2, f2, r2). Evict r2))
     = Inl InvalidIterator"
  by (simp add: replacer_defs Let_def s3_state_def Size_def)

subsection \<open>What the operations keep of the rings\<close>

text \<open>
  The new replacer has the invariant, and every operation that returns keeps it, for
  frame ids that index the flag vector and counters that do not wrap around.
\<close>

lemma list_erase_Inr_iff:
  "list_erase xs m f = Inr ys \<longleftrightarrow> f \<in> m \<and> f \<in> set xs \<and> ys = remove1 f xs"
  by (auto simp: list_erase_def)

lemma vec_at_Inr_iff:
  "vec_at v i = Inr b \<longleftrightarrow> 0 \<le> i \<and> nat i < length v \<and> b = v ! nat i"
  by (auto simp: vec_at_def)

text \<open>
  The history ring is in order of first access: an access puts a frame that is new to the
  ring at its front, takes out the frame that reaches K accesses, and moves nothing else.
  The tail of the ring is therefore its frame with the oldest first access.
\<close>

lemma RecordAccess_history_order:
  assumes "RecordAccess r f = Inr r'"
  shows "(f \<notin> history_map r \<and> use_count r f + 1 < replacer_k r
            \<and> history_list r' = f # history_list r)
       \<or> (f \<in> history_map r \<and> use_count r f + 1 = replacer_k r
            \<and> history_list r' = remove1 f (history_list r))
       \<or> history_list r' = history_list r"
  using assms
  by (auto simp: RecordAccess_def Let_def bind_err_Inr_iff list_erase_Inr_iff split: if_splits)

lemma replacer_inv_new: "replacer_inv (LRUKReplacer_new n k)"
  by (simp add: replacer_inv_def rings_ok_def LRUKReplacer_new_def)

lemma replacer_inv_RecordAccess:
  assumes inv: "replacer_inv r" and run: "RecordAccess r f = Inr r'"
    and f: "0 \<le> f" "nat f < length (is_accessible r)"
    and nowrap: "use_count r f + 1 \<noteq> 0"
  shows "replacer_inv r'"
proof -
  let ?n = "use_count r f + 1"
  have ne: "use_count r f \<noteq> ?n" by simp
  consider (eq) "?n = replacer_k r" | (gt) "replacer_k r < ?n" | (lt) "?n < replacer_k r"
    by fastforce
  then show ?thesis
  proof cases
    case eq
    with inv ne have notin: "f \<notin> set (cache_list r)"
      by (auto simp: replacer_inv_def)
    from eq run inv f notin show ?thesis
      by (auto simp: RecordAccess_def Let_def bind_err_Inr_iff list_erase_Inr_iff
          replacer_inv_def rings_ok_def split: if_splits dest: notin_set_remove1)
  next
    case gt
    then have "?n \<noteq> replacer_k r" by simp
    with gt run inv f show ?thesis
      by (auto simp: RecordAccess_def Let_def bind_err_Inr_iff list_erase_Inr_iff
          replacer_inv_def rings_ok_def split: if_splits dest: notin_set_remove1)
  next
    case lt
    then have a: "?n \<noteq> replacer_k r" "\<not> replacer_k r < ?n" by simp_all
    have notin: "f \<notin> set (cache_list r)"
    proof
      assume "f \<in> set (cache_list r)"
      with inv have "use_count r f = replacer_k r" by (simp add: replacer_inv_def)
      with lt have "use_count r f + 1 < use_count r f" by simp
      then have "use_count r f + 1 \<le> use_count r f" by simp
      then have "use_count r f = - 1" by (rule inc_less_eq_triv_imp)
      then have "use_count r f + 1 = 0" by simp
      with nowrap show False by simp
    qed
    from a run inv f notin show ?thesis
      by (auto simp: RecordAccess_def Let_def replacer_inv_def rings_ok_def split: if_splits)
  qed
qed

lemma replacer_inv_SetEvictable:
  assumes "replacer_inv r" and "SetEvictable r f b = Inr r'"
  shows "replacer_inv r'"
  using assms
  by (auto simp: SetEvictable_def Let_def bind_err_Inr_iff replacer_inv_def rings_ok_def
      split: if_splits)

lemma replacer_inv_Remove:
  assumes "replacer_inv r" and "Remove r f = Inr r'"
  shows "replacer_inv r'"
proof (cases "is_accessible r ! nat f")
  case False
  with assms show ?thesis
    by (auto simp: Remove_def bind_err_Inr_iff vec_at_Inr_iff split: if_splits)
next
  case True
  show ?thesis
  proof (cases "use_count r f < replacer_k r")
    case lt: True
    with True assms show ?thesis
      by (auto simp: Remove_def bind_err_Inr_iff vec_at_Inr_iff list_erase_Inr_iff
          replacer_inv_def rings_ok_def split: if_splits dest: notin_set_remove1)
  next
    case ge: False
    with True assms show ?thesis
      by (auto simp: Remove_def bind_err_Inr_iff vec_at_Inr_iff list_erase_Inr_iff
          replacer_inv_def rings_ok_def split: if_splits dest: notin_set_remove1)
  qed
qed


lemma remove1_rev_subset: "set (rev (remove1 f (rev xs))) \<subseteq> set xs"
  using set_remove1_subset [of f "rev xs"] by simp

lemma replacer_inv_evict_from_history:
  assumes "replacer_inv r" and "f \<in> set (history_list r)"
  shows "replacer_inv (evict_from_history r f)"
  using assms remove1_rev_subset [of f "history_list r"]
  by (auto simp: evict_from_history_def replacer_inv_def rings_ok_def)

lemma scan_back_Some: "scan_back acc fs = Inr (Some f) \<Longrightarrow> f \<in> set fs"
  by (induction fs) (auto simp: bind_err_Inr_iff split: if_splits)

lemma Evict_scans:
  "\<not> (history_map r = {} \<and> cache_map r = {}) \<Longrightarrow>
     Evict r =
       bind_err (scan_back (is_accessible r) (rev (history_list r))) (\<lambda>h.
         case h of
           Some f \<Rightarrow> Inr (True, f, evict_from_history r f)
         | None \<Rightarrow>
             bind_err (scan_back (is_accessible r) (rev (cache_list r))) (\<lambda>c.
               case c of
                 Some f \<Rightarrow> Inl InvalidIterator
               | None \<Rightarrow> Inr (False, 0, r)))"
  unfolding Evict_def by (rule if_not_P)

lemma replacer_inv_Evict:
  assumes inv: "replacer_inv r" and run: "Evict r = Inr (ok, f, r')"
  shows "replacer_inv r'"
proof (cases "history_map r = {} \<and> cache_map r = {}")
  case True
  with assms show ?thesis by (simp add: Evict_def)
next
  case False
  note run' = run [unfolded Evict_scans [OF False]]
  then obtain h where h: "scan_back (is_accessible r) (rev (history_list r)) = Inr h"
    by (auto simp: bind_err_Inr_iff)
  show ?thesis
  proof (cases h)
    case (Some g)
    with h have "g \<in> set (history_list r)" using scan_back_Some by fastforce
    with inv have "replacer_inv (evict_from_history r g)"
      by (rule replacer_inv_evict_from_history)
    with run' h Some show ?thesis by (auto simp: bind_err_def)
  next
    case None
    with run' h obtain c where c: "scan_back (is_accessible r) (rev (cache_list r)) = Inr c"
      by (auto simp: bind_err_Inr_iff)
    show ?thesis
    proof (cases c)
      case None': None
      with run' h None c inv show ?thesis by (auto simp: bind_err_def)
    next
      case (Some g)
      with run' h None c show ?thesis by (simp add: bind_err_def)
    qed
  qed
qed

lemma replacer_inv_rings_ok: "replacer_inv r \<Longrightarrow> rings_ok r"
  by (simp add: replacer_inv_def)

subsection \<open>The guard on the frame id\<close>

lemma RecordAccess_guard:
  "RecordAccess r f = Inl StdException \<longleftrightarrow> static_cast_int (replacer_size r) < f"
  by (auto simp: RecordAccess_def Let_def bind_err_def list_erase_def split: sum.splits if_splits)

lemma SetEvictable_guard:
  "SetEvictable r f b = Inl StdException \<longleftrightarrow> static_cast_int (replacer_size r) < f"
  by (auto simp: SetEvictable_def Let_def bind_err_def vec_at_def split: sum.splits if_splits)

lemma Remove_guard:
  "Remove r f = Inl StdException \<longleftrightarrow> static_cast_int (replacer_size r) < f"
  by (auto simp: Remove_def Let_def bind_err_def vec_at_def list_erase_def
      split: sum.splits if_splits)

text \<open>
  The guard compares the frame id with \<^verbatim>\<open>static_cast<int>(replacer_size_)\<close>. From
  \<open>2^31\<close> frames on the cast wraps around: a replacer made for \<open>2^31\<close> frames throws on
  frame 0.
\<close>

lemma RecordAccess_wrapped_size:
  "replacer_size r = 2 ^ 31 \<Longrightarrow> RecordAccess r 0 = Inl StdException"
  by (simp add: RecordAccess_guard static_cast_int_def)

text \<open>
  C7, as the code has it. For a replacer made for N frames, where N is below \<open>2^31\<close>,
  \<open>RecordAccess\<close>, \<open>SetEvictable\<close> and \<open>Remove\<close> throw exactly for the frame ids above N:
  the id N itself passes the guard, and so does every id below it.
\<close>

theorem replacer_rejects_above_size:
  assumes "replacer_size r < 2 ^ 31"
  shows "(RecordAccess r f = Inl StdException \<longleftrightarrow> int (replacer_size r) < f)
       \<and> (SetEvictable r f b = Inl StdException \<longleftrightarrow> int (replacer_size r) < f)
       \<and> (Remove r f = Inl StdException \<longleftrightarrow> int (replacer_size r) < f)"
  using assms
  by (simp add: RecordAccess_guard SetEvictable_guard Remove_guard static_cast_int_small)

theorem replacer_rejects_above_size_witness:
  "replacer_size (LRUKReplacer_new 3 2) < 2 ^ 31
   \<and> RecordAccess (LRUKReplacer_new 3 2) 4 = Inl StdException
   \<and> RecordAccess (LRUKReplacer_new 3 2) 3 \<noteq> Inl StdException
   \<and> SetEvictable (LRUKReplacer_new 3 2) 4 True = Inl StdException
   \<and> SetEvictable (LRUKReplacer_new 3 2) 3 True \<noteq> Inl StdException
   \<and> Remove (LRUKReplacer_new 3 2) 4 = Inl StdException
   \<and> Remove (LRUKReplacer_new 3 2) 3 \<noteq> Inl StdException"
  using replacer_rejects_above_size [of "LRUKReplacer_new 3 2" 4 True]
        replacer_rejects_above_size [of "LRUKReplacer_new 3 2" 3 True]
  by (simp add: LRUKReplacer_new_def)

text \<open>
  C7, as the claim has it, fails at the frame id N: on a replacer made for three frames,
  \<open>RecordAccess\<close> of frame 3 throws nothing and puts the frame into the history ring.
\<close>

theorem RecordAccess_accepts_size_counterexample:
  "replacer_size (LRUKReplacer_new 3 2) = 3
   \<and> \<not> isl (RecordAccess (LRUKReplacer_new 3 2) 3)
   \<and> map_sum id history_list (RecordAccess (LRUKReplacer_new 3 2) 3) = Inr [3]"
  by (simp add: replacer_defs Let_def)

section \<open>Properties of the buffer pool manager\<close>

lemmas bpm_defs = NewPage_def FetchPage_def UnpinPage_def DeletePage_def obtain_frame_def
  BufferPoolManager_new_def page_at_def INVALID_PAGE_ID_def

lemma all_pinned_reached:
  "NewPage (BufferPoolManager_new 1 2) = Inr (Some (0, 0), all_pinned)"
  by (simp add: replacer_defs bpm_defs Let_def all_pinned_def)

lemma unpinned_clean_reached:
  "UnpinPage all_pinned 0 False = Inr (True, unpinned_clean)"
  by (simp add: replacer_defs bpm_defs Let_def all_pinned_def unpinned_clean_def)

text \<open>
  C3. The claim asks that \<open>UnpinPage\<close> keeps a dirty flag that is already set. In a pool
  of one frame, page 0 is made, fetched once more and unpinned with a dirty hint: its
  frame is dirty with one pin left. Unpinning it with a clean hint returns true and
  leaves the frame clean.
\<close>

theorem UnpinPage_clears_dirty:
  "bind_err (NewPage (BufferPoolManager_new 1 2)) (\<lambda>(_, s1).
     bind_err (FetchPage s1 0) (\<lambda>(_, s2).
       bind_err (UnpinPage s2 0 True) (\<lambda>(_, s3).
         bind_err (UnpinPage s3 0 False) (\<lambda>(ok, s4).
           Inr (pages s3, ok, pages s4)))))
   = Inr ([\<lparr>page_id = 0, pin_count = 1, is_dirty = True\<rparr>], True,
          [\<lparr>page_id = 0, pin_count = 0, is_dirty = False\<rparr>])"
  by (simp add: replacer_defs bpm_defs Let_def)

text \<open>
  What \<open>UnpinPage\<close> does on every resident pinned page: the dirty flag becomes the hint,
  the pin count goes down by one, and the call returns true.
\<close>

lemma UnpinPage_pinned:
  assumes "pid \<noteq> INVALID_PAGE_ID" and "page_table s pid = Some f"
    and "0 \<le> f" and "nat f < length (pages s)"
    and "0 < pin_count (pages s ! nat f)"
    and "UnpinPage s pid hint = Inr (b, s')"
  shows "b \<and> pages s' = (pages s)[nat f := (pages s ! nat f)\<lparr>is_dirty := hint,
                             pin_count := pin_count (pages s ! nat f) - 1\<rparr>]"
  using assms
  by (auto simp: UnpinPage_def page_at_def bind_err_Inr_iff Let_def split: if_splits)

text \<open>
  C9. On a resident page whose pin count is zero, \<open>UnpinPage\<close> returns false and the
  state it leaves is the state before with the frame's dirty flag set to the hint; the
  state is unchanged only when the flag already had that value.
\<close>

theorem UnpinPage_at_zero_overwrites_dirty:
  assumes "pid \<noteq> INVALID_PAGE_ID" and "page_table s pid = Some f"
    and "0 \<le> f" and "nat f < length (pages s)"
    and "pin_count (pages s ! nat f) = 0"
  shows "UnpinPage s pid hint
           = Inr (False, s\<lparr>pages := (pages s)[nat f := (pages s ! nat f)\<lparr>is_dirty := hint\<rparr>]\<rparr>)
       \<and> (s\<lparr>pages := (pages s)[nat f := (pages s ! nat f)\<lparr>is_dirty := hint\<rparr>]\<rparr> = s
            \<longleftrightarrow> is_dirty (pages s ! nat f) = hint)"
proof -
  let ?p = "pages s ! nat f"
  let ?ps = "(pages s)[nat f := ?p\<lparr>is_dirty := hint\<rparr>]"
  have run: "UnpinPage s pid hint = Inr (False, s\<lparr>pages := ?ps\<rparr>)"
    using assms by (simp add: UnpinPage_def page_at_def bind_err_def Let_def)
  have "?ps = pages s \<longleftrightarrow> is_dirty ?p = hint"
  proof
    assume "?ps = pages s"
    then have "?ps ! nat f = ?p" by simp
    with assms(4) have "?p\<lparr>is_dirty := hint\<rparr> = ?p" by simp
    then have "is_dirty (?p\<lparr>is_dirty := hint\<rparr>) = is_dirty ?p" by simp
    then show "is_dirty ?p = hint" by simp
  next
    assume "is_dirty ?p = hint"
    then have "?p\<lparr>is_dirty := hint\<rparr> = ?p" by simp
    then show "?ps = pages s" by simp
  qed
  moreover have "s\<lparr>pages := ?ps\<rparr> = s \<longleftrightarrow> ?ps = pages s"
    by (metis BufferPoolManager.select_convs(2) BufferPoolManager.surjective
        BufferPoolManager.update_convs(2))
  ultimately show ?thesis using run by simp
qed

theorem UnpinPage_at_zero_overwrites_dirty_witness:
  "UnpinPage unpinned_clean 0 True
     = Inr (False, unpinned_clean\<lparr>pages := [\<lparr>page_id = 0, pin_count = 0, is_dirty = True\<rparr>]\<rparr>)
   \<and> unpinned_clean\<lparr>pages := [\<lparr>page_id = 0, pin_count = 0, is_dirty = True\<rparr>]\<rparr> \<noteq> unpinned_clean"
  using UnpinPage_at_zero_overwrites_dirty [of 0 unpinned_clean 0 True]
  by (simp add: unpinned_clean_def INVALID_PAGE_ID_def)

text \<open>
  C5. The claim asks that \<open>DeletePage\<close> returns true when it deletes a resident unpinned
  page. In a pool of one frame, page 0 is made and unpinned; \<open>DeletePage\<close> then resets
  the frame, drops the page from the page table and deallocates it, and returns false.
\<close>

theorem DeletePage_success_returns_false:
  "bind_err (NewPage (BufferPoolManager_new 1 2)) (\<lambda>(_, s1).
     bind_err (UnpinPage s1 0 False) (\<lambda>(_, s2).
       bind_err (DeletePage s2 0) (\<lambda>(ok, s3).
         Inr (page_table s2 0, pages s2, ok, page_table s3 0, pages s3, io_log s3))))
   = Inr (Some 0, [\<lparr>page_id = 0, pin_count = 0, is_dirty = False\<rparr>], False, None,
          [\<lparr>page_id = INVALID_PAGE_ID, pin_count = 0, is_dirty = False\<rparr>], [DeallocatePage 0])"
  by (simp add: replacer_defs bpm_defs Let_def)

text \<open>The three results of \<open>DeletePage\<close>, on any state.\<close>

lemma DeletePage_results:
  "DeletePage s pid = Inr (b, s') \<Longrightarrow> b \<longleftrightarrow> page_table s pid = None"
  by (auto simp: DeletePage_def bind_err_Inr_iff Let_def split: option.splits if_splits)

text \<open>
  C6. The claim asks that the freed frame's index goes to the free list. In a pool of one
  frame, page 0 is made and unpinned, page 1 is made in the same frame 0 and unpinned, and
  page 1 is deleted: the free list then holds 1, the page id, which is no frame of the
  pool.
\<close>

theorem DeletePage_frees_page_id:
  "bind_err (NewPage (BufferPoolManager_new 1 2)) (\<lambda>(_, s1).
     bind_err (UnpinPage s1 0 False) (\<lambda>(_, s2).
       bind_err (NewPage s2) (\<lambda>(new, s3).
         bind_err (UnpinPage s3 1 False) (\<lambda>(_, s4).
           bind_err (DeletePage s4 1) (\<lambda>(_, s5).
             Inr (new, page_table s4 1, pool_size s5, length (pages s5), free_list s5))))))
   = Inr (Some (1, 0), Some 0, 1, 1, [1])"
  by (simp add: replacer_defs bpm_defs Let_def)

text \<open>The next \<open>NewPage\<close> takes that entry as a frame and indexes the frame array with it.\<close>

lemma NewPage_after_DeletePage:
  "bind_err (NewPage (BufferPoolManager_new 1 2)) (\<lambda>(_, s1).
     bind_err (UnpinPage s1 0 False) (\<lambda>(_, s2).
       bind_err (NewPage s2) (\<lambda>(new, s3).
         bind_err (UnpinPage s3 1 False) (\<lambda>(_, s4).
           bind_err (DeletePage s4 1) (\<lambda>(_, s5). NewPage s5)))))
   = Inl OutOfRange"
  by (simp add: replacer_defs bpm_defs Let_def)

text \<open>\<open>FetchPage\<close> returns no page exactly when the page is not resident, the free list
  is empty and \<open>Evict\<close> finds no victim.\<close>

lemma obtain_frame_none_iff:
  "(\<exists>s'. obtain_frame s = Inr (None, s')) \<longleftrightarrow>
     free_list s = [] \<and> (\<exists>f r'. Evict (replacer s) = Inr (False, f, r'))"
proof (cases "free_list s = []")
  case False
  then show ?thesis by (simp add: obtain_frame_def)
next
  case True
  show ?thesis
  proof (cases "Evict (replacer s)")
    case (Inl e)
    with True show ?thesis by (simp add: obtain_frame_def bind_err_def)
  next
    case (Inr res)
    obtain ok f r' where res: "res = (ok, f, r')" by (cases res)
    show ?thesis
    proof (cases ok)
      case False
      with True Inr res show ?thesis by (simp add: obtain_frame_def bind_err_def)
    next
      case ok: True
      with True Inr res show ?thesis
        by (cases "page_at (pages s) f") (simp_all add: obtain_frame_def bind_err_def Let_def)
    qed
  qed
qed

lemma FetchPage_none_iff:
  "(\<exists>s'. FetchPage s pid = Inr (None, s')) \<longleftrightarrow>
     page_table s pid = None \<and> free_list s = []
     \<and> (\<exists>f r'. Evict (replacer s) = Inr (False, f, r'))"
proof (cases "page_table s pid")
  case (Some f)
  then have "\<And>s'. FetchPage s pid \<noteq> Inr (None, s')"
    by (auto simp: FetchPage_def bind_err_Inr_iff Let_def)
  with Some show ?thesis by simp
next
  case None
  have "(\<exists>s'. FetchPage s pid = Inr (None, s')) \<longleftrightarrow> (\<exists>s'. obtain_frame s = Inr (None, s'))"
  proof (cases "obtain_frame s")
    case (Inl e)
    with None show ?thesis by (simp add: FetchPage_def bind_err_def)
  next
    case (Inr res)
    obtain fo s1 where res: "res = (fo, s1)" by (cases res)
    show ?thesis
    proof (cases fo)
      case None': None
      with None Inr res show ?thesis by (simp add: FetchPage_def bind_err_def)
    next
      case (Some f)
      with None Inr res show ?thesis
        by (auto simp: FetchPage_def bind_err_Inr_iff Let_def)
    qed
  qed
  with None show ?thesis by (simp add: obtain_frame_none_iff)
qed

lemma FetchPage_all_pinned: "FetchPage all_pinned 5 = Inr (None, all_pinned)"
  by (simp add: replacer_defs bpm_defs Let_def all_pinned_def)

text \<open>
  C10. Whenever \<open>FetchPage\<close> returns no page, \<open>FetchPageRead\<close> and \<open>FetchPageWrite\<close> call
  the latch through the null pointer; neither returns a guard.
\<close>

theorem FetchPageRead_null_dereference:
  assumes "FetchPage s pid = Inr (None, s')"
  shows "FetchPageRead s pid = Inl NullDereference \<and> FetchPageWrite s pid = Inl NullDereference"
  using assms by (simp add: FetchPageRead_def FetchPageWrite_def bind_err_def)

theorem FetchPageRead_null_dereference_witness:
  "FetchPage all_pinned 5 = Inr (None, all_pinned)
   \<and> FetchPageRead all_pinned 5 = Inl NullDereference
   \<and> FetchPageWrite all_pinned 5 = Inl NullDereference
   \<and> FetchPageBasic all_pinned 5 = Inr (BasicPageGuard None, all_pinned)"
  using FetchPageRead_null_dereference [OF FetchPage_all_pinned]
  by (simp add: FetchPage_all_pinned FetchPageBasic_def bind_err_def)

section \<open>Properties of the trie\<close>

subsection \<open>Put writes only into nodes it has made\<close>

lemma walk_agree:
  assumes "\<forall>a < n. \<forall>c b. map_of (children (cells h a)) c = Some b \<longrightarrow> b < n"
    and "\<forall>a < n. cells h' a = cells h a"
    and "r < n"
  shows "walk h' r key = walk h r key \<and> (\<forall>x. walk h r key = Some x \<longrightarrow> x < n)"
  using assms(3)
proof (induction key arbitrary: r)
  case Nil
  then show ?case by simp
next
  case (Cons c key)
  from Cons.prems assms(2) have same: "cells h' r = cells h r" by simp
  show ?case
  proof (cases "map_of (children (cells h r)) c")
    case None
    with same show ?thesis by simp
  next
    case (Some b)
    with Cons.prems assms(1) have "b < n" by blast
    from Cons.IH [OF this] Some same show ?thesis by simp
  qed
qed

lemma put_path_frame:
  "top h \<le> top (put_path h ptr key tv)
   \<and> (\<forall>a. a < top h \<and> a \<noteq> ptr \<longrightarrow> cells (put_path h ptr key tv) a = cells h a)"
proof (induction key arbitrary: h ptr)
  case Nil
  then show ?case by simp
next
  case (Cons c key)
  show ?case
  proof (cases key)
    case Nil
    then show ?thesis
      by (simp add: make_shared_def set_child_def split: option.split)
  next
    case (Cons k key')
    show ?thesis
    proof (cases "map_of (children (cells h ptr)) c")
      case None
      let ?h2 = "set_child (fst (make_shared h \<lparr>children = [], node_value = None\<rparr>)) ptr c (top h)"
      have eq: "put_path h ptr (c # key) tv = put_path ?h2 (top h) key tv"
        using None Cons by (simp add: make_shared_def)
      have t2: "top ?h2 = Suc (top h)" by (simp add: make_shared_def set_child_def)
      have c2: "\<And>a. a < top h \<Longrightarrow> a \<noteq> ptr \<Longrightarrow> cells ?h2 a = cells h a"
        by (simp add: make_shared_def set_child_def)
      from Cons.IH [of ?h2 "top h"] t2 c2 show ?thesis
        unfolding eq by auto
    next
      case (Some ch)
      let ?h2 = "set_child (fst (Clone h ch)) ptr c (top h)"
      have eq: "put_path h ptr (c # key) tv = put_path ?h2 (top h) key tv"
        using Some Cons by (simp add: make_shared_def Clone_def)
      have t2: "top ?h2 = Suc (top h)" by (simp add: make_shared_def Clone_def set_child_def)
      have c2: "\<And>a. a < top h \<Longrightarrow> a \<noteq> ptr \<Longrightarrow> cells ?h2 a = cells h a"
        by (simp add: make_shared_def Clone_def set_child_def)
      from Cons.IH [of ?h2 "top h"] t2 c2 show ?thesis
        unfolding eq by auto
    qed
  qed
qed

lemma put_path_reaches:
  "key \<noteq> [] \<Longrightarrow> ptr < top h \<Longrightarrow>
     \<exists>x. walk (put_path h ptr key tv) ptr key = Some x
        \<and> node_value (cells (put_path h ptr key tv) x) = Some tv"
proof (induction key arbitrary: h ptr)
  case Nil
  then show ?case by simp
next
  case (Cons c key)
  show ?case
  proof (cases key)
    case Nil
    with Cons.prems show ?thesis
      by (simp add: make_shared_def set_child_def update_conv' split: option.split)
  next
    case (Cons k key')
    define n where "n = (case map_of (children (cells h ptr)) c of
                           None \<Rightarrow> \<lparr>children = [], node_value = None\<rparr>
                         | Some ch \<Rightarrow> cells h ch)"
    let ?h2 = "set_child (fst (make_shared h n)) ptr c (top h)"
    let ?h' = "put_path ?h2 (top h) key tv"
    have eq: "put_path h ptr (c # key) tv = ?h'"
      using Cons by (simp add: make_shared_def Clone_def n_def split: option.split)
    have t2: "top ?h2 = Suc (top h)" by (simp add: make_shared_def set_child_def)
    have "ptr < top ?h2" "ptr \<noteq> top h" using Cons.prems t2 by simp_all
    with put_path_frame [of ?h2 "top h" key tv]
    have "cells ?h' ptr = cells ?h2 ptr" by simp
    moreover have "map_of (children (cells ?h2 ptr)) c = Some (top h)"
      using Cons.prems by (simp add: make_shared_def set_child_def update_conv')
    ultimately have step: "walk ?h' ptr (c # key) = walk ?h' (top h) key" by simp
    have "key \<noteq> []" using Cons by simp
    from Cons.IH [OF this, of "top h" ?h2] t2
    obtain x where "walk ?h' (top h) key = Some x" "node_value (cells ?h' x) = Some tv"
      by auto
    with step show ?thesis unfolding eq by simp
  qed
qed

lemma Put_from_frame:
  assumes "Put_from h r key tv = (h1, t1)"
  shows "top h \<le> top h1 \<and> (\<forall>a < top h. cells h1 a = cells h a)"
proof (cases "key = []")
  case True
  with assms show ?thesis
    by (auto simp: Put_from_def Clone_def make_shared_def)
next
  case False
  with assms have h1: "h1 = put_path (fst (Clone h r)) (top h) key tv"
    by (auto simp: Put_from_def Clone_def make_shared_def)
  have "top (fst (Clone h r)) = Suc (top h)"
    and "\<And>a. a < top h \<Longrightarrow> cells (fst (Clone h r)) a = cells h a"
    by (simp_all add: Clone_def make_shared_def)
  with put_path_frame [of "fst (Clone h r)" "top h" key tv] show ?thesis
    unfolding h1 by auto
qed

lemma Put_from_reaches:
  assumes "Put_from h r key (ty, v) = (h1, t1)"
  shows "Get h1 t1 ty key = Some v"
proof (cases "key = []")
  case True
  with assms show ?thesis
    by (auto simp: Put_from_def Clone_def make_shared_def Get_def is_value_node_def)
next
  case False
  with assms have h1: "h1 = put_path (fst (Clone h r)) (top h) key (ty, v)" and t1: "t1 = Some (top h)"
    by (auto simp: Put_from_def Clone_def make_shared_def)
  have "top h < top (fst (Clone h r))" by (simp add: Clone_def make_shared_def)
  from put_path_reaches [OF False this, of "(ty, v)"] show ?thesis
    unfolding h1 t1 by (auto simp: Get_def is_value_node_def)
qed

lemma Put_frame:
  assumes "Put h t0 key tv = (h1, t1)"
  shows "top h \<le> top h1 \<and> (\<forall>a < top h. cells h1 a = cells h a)"
proof (cases t0)
  case None
  let ?h0 = "fst (make_shared h \<lparr>children = [], node_value = None\<rparr>)"
  from None assms have "Put_from ?h0 (top h) key tv = (h1, t1)"
    by (simp add: Put_def make_shared_def)
  from Put_from_frame [OF this] show ?thesis by (auto simp: make_shared_def)
next
  case (Some r)
  with assms have "Put_from h r key tv = (h1, t1)" by (simp add: Put_def)
  from Put_from_frame [OF this] show ?thesis .
qed

lemma Get_agree:
  assumes "store_closed h" and "trie_in h t" and "\<forall>a < top h. cells h' a = cells h a"
  shows "Get h' t ty key = Get h t ty key"
proof (cases t)
  case None
  then show ?thesis by (simp add: Get_def)
next
  case (Some r)
  with assms(2) have r: "r < top h" by (simp add: trie_in_def)
  from assms(1) have cl: "\<forall>a < top h. \<forall>c b. map_of (children (cells h a)) c = Some b \<longrightarrow> b < top h"
    by (simp add: store_closed_def)
  from walk_agree [OF cl assms(3) r, of key]
  have w: "walk h' r key = walk h r key" and b: "\<And>x. walk h r key = Some x \<Longrightarrow> x < top h"
    by auto
  show ?thesis
  proof (cases "walk h r key")
    case None
    with w Some show ?thesis by (simp add: Get_def)
  next
    case (Some x)
    with b assms(3) have "cells h' x = cells h x" by simp
    with w Some \<open>t = Some r\<close> show ?thesis by (simp add: Get_def)
  qed
qed

subsection \<open>Put keeps the store closed\<close>

lemma set_child_closed:
  assumes "store_closed h" and "p < top h"
    and "\<forall>c b. map_of (children n) c = Some b \<longrightarrow> b < top h"
  shows "store_closed (set_child (fst (make_shared h n)) p c (top h))"
  using assms
  by (auto simp: store_closed_def make_shared_def set_child_def update_conv' less_Suc_eq
      split: if_splits)

lemma put_path_closed:
  "store_closed h \<Longrightarrow> ptr < top h \<Longrightarrow> store_closed (put_path h ptr key tv)"
proof (induction key arbitrary: h ptr)
  case Nil
  then show ?case by simp
next
  case (Cons c key)
  define n where "n = (case map_of (children (cells h ptr)) c of
                         None \<Rightarrow> \<lparr>children = [], node_value = None\<rparr>
                       | Some ch \<Rightarrow> cells h ch)"
  define m where "m = (case map_of (children (cells h ptr)) c of
                         None \<Rightarrow> \<lparr>children = [], node_value = Some tv\<rparr>
                       | Some ch \<Rightarrow> \<lparr>children = children (cells h ch), node_value = Some tv\<rparr>)"
  have kids: "\<forall>d b. map_of (children n) d = Some b \<longrightarrow> b < top h"
    "\<forall>d b. map_of (children m) d = Some b \<longrightarrow> b < top h"
    using Cons.prems unfolding n_def m_def store_closed_def
    by (auto split: option.split)
  show ?case
  proof (cases key)
    case Nil
    then have "put_path h ptr (c # key) tv = set_child (fst (make_shared h m)) ptr c (top h)"
      by (simp add: make_shared_def m_def split: option.split)
    with set_child_closed [OF Cons.prems kids(2)] show ?thesis by simp
  next
    case (Cons k key')
    let ?h2 = "set_child (fst (make_shared h n)) ptr c (top h)"
    have eq: "put_path h ptr (c # key) tv = put_path ?h2 (top h) key tv"
      using Cons by (simp add: make_shared_def Clone_def n_def split: option.split)
    have "top h < top ?h2" by (simp add: make_shared_def set_child_def)
    with Cons.IH [OF set_child_closed [OF Cons.prems kids(1)], of "top h" c] show ?thesis
      unfolding eq by simp
  qed
qed

lemma make_shared_closed:
  assumes "store_closed h" and "\<forall>c b. map_of (children n) c = Some b \<longrightarrow> b < top h"
  shows "store_closed (fst (make_shared h n))"
  using assms by (auto simp: store_closed_def make_shared_def less_Suc_eq)

lemma Put_from_closed:
  assumes "store_closed h" and "r < top h" and "Put_from h r key tv = (h1, t1)"
  shows "store_closed h1 \<and> trie_in h1 t1"
proof -
  have kids: "\<forall>c b. map_of (children (cells h r)) c = Some b \<longrightarrow> b < top h"
    using assms(1,2) by (auto simp: store_closed_def)
  let ?h0 = "fst (Clone h r)"
  have c0: "store_closed ?h0" unfolding Clone_def by (rule make_shared_closed [OF assms(1) kids])
  have t0: "top ?h0 = Suc (top h)" "cells ?h0 (top h) = cells h r"
    by (simp_all add: Clone_def make_shared_def)
  show ?thesis
  proof (cases "key = []")
    case True
    let ?n = "\<lparr>children = children (cells h r), node_value = Some tv\<rparr>"
    from True assms(3) have h1: "h1 = fst (make_shared ?h0 ?n)" and t1: "t1 = Some (Suc (top h))"
      by (auto simp: Put_from_def Clone_def make_shared_def)
    have "\<forall>c b. map_of (children ?n) c = Some b \<longrightarrow> b < top ?h0"
      using kids t0 by (auto simp: less_Suc_eq)
    from make_shared_closed [OF c0 this] show ?thesis
      unfolding h1 t1 by (simp add: trie_in_def make_shared_def Clone_def)
  next
    case False
    with assms(3) have h1: "h1 = put_path ?h0 (top h) key tv" and t1: "t1 = Some (top h)"
      by (auto simp: Put_from_def Clone_def make_shared_def)
    have lt: "top h < top ?h0" using t0 by simp
    from put_path_closed [OF c0 lt] put_path_frame [of ?h0 "top h" key tv] lt
    show ?thesis unfolding h1 t1 by (auto simp: trie_in_def)
  qed
qed

lemma Put_closed:
  assumes "store_closed h" and "trie_in h t0" and "Put h t0 key tv = (h1, t1)"
  shows "store_closed h1 \<and> trie_in h1 t1"
proof (cases t0)
  case None
  let ?h0 = "fst (make_shared h \<lparr>children = [], node_value = None\<rparr>)"
  have c0: "store_closed ?h0" by (rule make_shared_closed [OF assms(1)]) simp
  have "top h < top ?h0" by (simp add: make_shared_def)
  moreover from None assms(3) have "Put_from ?h0 (top h) key tv = (h1, t1)"
    by (simp add: Put_def make_shared_def)
  ultimately show ?thesis using Put_from_closed [OF c0] by blast
next
  case (Some r)
  with assms(2,3) have "r < top h" "Put_from h r key tv = (h1, t1)"
    by (simp_all add: trie_in_def Put_def)
  with Put_from_closed [OF assms(1)] show ?thesis by blast
qed

lemma empty_store_closed: "store_closed empty_store"
  by (simp add: store_closed_def empty_store_def)

lemmas trie_defs = Put_def Put_from_def Clone_def make_shared_def set_child_def erase_child_def
  empty_store_def Get_def is_value_node_def Remove_trie_def bind_err_def

text \<open>Scenario S5, run: the three versions keep their own value for \<open>abc\<close>.\<close>

lemma s5_versions:
  "(let (h1, t1) = Put (empty_store :: (nat, nat) store) None ''abc'' (0, 1);
        (h2, t2) = Put h1 t1 ''abc'' (0, 2)
    in [Get h2 None 0 ''abc'', Get h2 t1 0 ''abc'', Get h2 t2 0 ''abc'', Get h2 t2 1 ''abc''])
   = [None, Some 1, Some 2, None]"
  by (simp add: trie_defs)

text \<open>
  C8. In a closed store, \<open>Put\<close> of a key and a value on a trie \<open>t0\<close> leaves every
  \<open>Get\<close> on \<open>t0\<close> as it was, for every key and type, although the new trie shares nodes
  with \<open>t0\<close>; and \<open>Get\<close> of the key on the new trie, at the type of the value, returns
  the value.
\<close>

theorem Put_persistent:
  assumes "store_closed h" and "trie_in h t0" and "Put h t0 k (ty, v) = (h1, t1)"
  shows "(\<forall>ty' k'. Get h1 t0 ty' k' = Get h t0 ty' k') \<and> Get h1 t1 ty k = Some v"
proof -
  from Put_frame [OF assms(3)] have fr: "\<forall>a < top h. cells h1 a = cells h a" by simp
  have old: "\<forall>ty' k'. Get h1 t0 ty' k' = Get h t0 ty' k'"
    using Get_agree [OF assms(1,2) fr] by simp
  have new: "Get h1 t1 ty k = Some v"
  proof (cases t0)
    case None
    with assms(3) show ?thesis
      by (auto simp: Put_def make_shared_def intro: Put_from_reaches)
  next
    case (Some r)
    with assms(3) show ?thesis by (auto simp: Put_def intro: Put_from_reaches)
  qed
  from old new show ?thesis by simp
qed


theorem Put_persistent_witness:
  "store_closed (fst store_a) \<and> trie_in (fst store_a) (snd store_a)
   \<and> Get (fst store_a) (snd store_a) 0 ''ab'' = Some 1
   \<and> Get (fst (Put (fst store_a) (snd store_a) ''ab'' (0, 2))) (snd store_a) 0 ''ab'' = Some 1
   \<and> Get (fst (Put (fst store_a) (snd store_a) ''ab'' (0, 2)))
         (snd (Put (fst store_a) (snd store_a) ''ab'' (0, 2))) 0 ''ab'' = Some 2"
proof -
  have a: "store_closed (fst store_a) \<and> trie_in (fst store_a) (snd store_a)"
    using Put_closed [OF empty_store_closed, of None "''ab''" "(0, 1)" "fst store_a" "snd store_a"]
    by (simp add: store_a_def trie_in_def)
  have b: "Get (fst store_a) (snd store_a) 0 ''ab'' = Some 1"
    by (simp add: store_a_def trie_defs)
  from a have c: "store_closed (fst store_a)" and d: "trie_in (fst store_a) (snd store_a)"
    by simp_all
  from Put_persistent [OF c d, of "''ab''" 0 2
      "fst (Put (fst store_a) (snd store_a) ''ab'' (0, 2))"
      "snd (Put (fst store_a) (snd store_a) ''ab'' (0, 2))"] a b
  show ?thesis by simp
qed

subsection \<open>Remove\<close>

text \<open>
  C4. The claim asks that \<open>Remove\<close> returns a trie on every trie, the one without a root
  included. On a trie without a root, \<open>Remove\<close> passes the null root to \<open>Dfs\<close>, which
  reads its children: for every key the call ends in a null dereference.
\<close>

theorem Remove_trie_null_root: "Remove_trie h None key = Inl NullDereference"
  by (simp add: Remove_trie_def bind_err_def)

text \<open>On a trie with a root, \<open>Dfs\<close> returns for every key.\<close>

lemma Dfs_rooted:
  "\<exists>h' r'. Dfs h (Some r) key = Inr (h', r')"
proof (induction key arbitrary: h r)
  case Nil
  then show ?case by (simp add: make_shared_def)
next
  case (Cons c key)
  show ?case
  proof (cases "map_of (children (cells h r)) c")
    case None
    then show ?thesis by simp
  next
    case (Some ch)
    from Cons.IH [of h ch] obtain h' r' where "Dfs h (Some ch) key = Inr (h', r')" by blast
    with Some show ?thesis
      by (cases r') (simp_all add: bind_err_def Clone_def make_shared_def Let_def)
  qed
qed


text \<open>Scenario S6, run.\<close>

lemma s6_branches:
  "(let (h1, t1) = Put (empty_store :: (nat, nat) store) None ''ab'' (0, 1);
        (h2, t2) = Put h1 t1 ''abc'' (0, 2)
    in bind_err (Remove_trie h2 t2 ''abc'') (\<lambda>(h3, t3).
         bind_err (Remove_trie h3 t3 ''ab'') (\<lambda>(h4, t4).
           Inr ([Get h3 t3 0 ''abc'', Get h3 t3 0 ''ab'', Get h4 t2 0 ''abc''], t4))))
   = Inr ([None, Some 1, Some 2], None)"
  by (simp add: trie_defs Let_def)

end
